theory Spec2Isabelle
  imports Complex_Main "HOL-Library.Sublist" "HOL-Library.AList"
begin

section \<open>Python strings\<close>

text \<open>
  A Python \<open>str\<close> is a sequence of Unicode code points and \<open>len\<close> counts code points,
  so a string is a list of code points (\<open>ord\<close> of each character).
\<close>

type_synonym ustr = "nat list"

text \<open>
  \<open>str.isspace\<close> on one character, which is also what \<open>str.strip()\<close>, \<open>str.split()\<close> and
  the regular expression class \<open>\s\<close> (on \<open>str\<close> patterns) test: U+0009..U+000D,
  U+001C..U+0020, U+0085, U+00A0, U+1680, U+2000..U+200A, U+2028, U+2029, U+202F, U+205F,
  U+3000.
\<close>

definition isspace :: "nat \<Rightarrow> bool" where
  "isspace c \<longleftrightarrow>
     (9 \<le> c \<and> c \<le> 13) \<or> (28 \<le> c \<and> c \<le> 32) \<or> c = 133 \<or> c = 160 \<or> c = 5760 \<or>
     (8192 \<le> c \<and> c \<le> 8202) \<or> c = 8232 \<or> c = 8233 \<or> c = 8239 \<or> c = 8287 \<or> c = 12288"

text \<open>\<open>s.strip()\<close>: leading and trailing whitespace removed.\<close>

definition strip :: "ustr \<Rightarrow> ustr" where
  "strip s = rev (dropWhile isspace (rev (dropWhile isspace s)))"

text \<open>\<open>s.strip(chars)\<close>: leading and trailing characters of \<open>chars\<close> removed.\<close>

definition strip_chars :: "ustr \<Rightarrow> ustr \<Rightarrow> ustr" where
  "strip_chars chars s =
     rev (dropWhile (\<lambda>c. c \<in> set chars) (rev (dropWhile (\<lambda>c. c \<in> set chars) s)))"

text \<open>\<open>" ".join(tokens)\<close>.\<close>

fun join_sp :: "ustr list \<Rightarrow> ustr" where
  "join_sp [] = []"
| "join_sp [t] = t"
| "join_sp (t # u # ts) = t @ 32 # join_sp (u # ts)"

text \<open>
  \<open>s.replace(old, new)\<close> for a non-empty \<open>old\<close> (every call of the source passes a
  non-empty literal): the occurrences of \<open>old\<close> are found from left to right, without
  overlap, and each is replaced by \<open>new\<close>.
\<close>

function replace :: "ustr \<Rightarrow> ustr \<Rightarrow> ustr \<Rightarrow> ustr" where
  "replace old new [] = []"
| "replace old new (c # cs) =
     (if old \<noteq> [] \<and> prefix old (c # cs)
      then new @ replace old new (drop (length old) (c # cs))
      else c # replace old new cs)"
  by pat_completeness auto
termination
  by (relation "measure (\<lambda>(old, new, s). length s)") (auto simp: Suc_le_eq)

text \<open>\<open>s.split()\<close>: the maximal runs of non-whitespace characters, in order.\<close>

fun split_ws_from :: "ustr \<Rightarrow> ustr \<Rightarrow> ustr list" where
  "split_ws_from word [] = (if word = [] then [] else [word])"
| "split_ws_from word (c # cs) =
     (if isspace c then (if word = [] then [] else [word]) @ split_ws_from [] cs
      else split_ws_from (word @ [c]) cs)"

definition split_ws :: "ustr \<Rightarrow> ustr list" where
  "split_ws s = split_ws_from [] s"

text \<open>
  \<open>xs[:k]\<close>: a negative \<open>k\<close> counts from the end, and the bound is clipped to the
  length, so the slice is always a prefix and never raises.
\<close>

definition py_slice_to :: "'a list \<Rightarrow> int \<Rightarrow> 'a list" where
  "py_slice_to xs k = (if k < 0 then take (nat (int (length xs) + k)) xs else take (nat k) xs)"

text \<open>\<open>str(n)\<close> for a non-negative integer: its decimal digits.\<close>

fun str_nat :: "nat \<Rightarrow> ustr" where
  "str_nat n = (if n < 10 then [48 + n] else str_nat (n div 10) @ [48 + n mod 10])"

declare str_nat.simps [simp del]

section \<open>Number normalisation (\<open>normalize_numbers\<close>, the same body in both helper files)\<close>

text \<open>
  The class \<open>\d\<close> of a \<open>str\<close> pattern is the Unicode category Nd and \<open>int\<close> reads any such
  digits; the table is the interpreter's, so it is a parameter \<open>dv\<close>: the decimal value
  of a code point that is a digit, \<open>None\<close> for any other. The full stop (46) is not a digit
  in Unicode; the matcher of the decimal pattern below relies on that.
\<close>

definition is_digit :: "(nat \<Rightarrow> nat option) \<Rightarrow> nat \<Rightarrow> bool" where
  "is_digit dv c = (dv c \<noteq> None)"

definition ascii_digit_val :: "nat \<Rightarrow> nat option" where
  "ascii_digit_val c = (if 48 \<le> c \<and> c \<le> 57 then Some (c - 48) else None)"

text \<open>\<open>int(s)\<close> on a string of digits.\<close>

definition py_int :: "(nat \<Rightarrow> nat option) \<Rightarrow> ustr \<Rightarrow> nat" where
  "py_int dv s = foldl (\<lambda>a c. 10 * a + (case dv c of Some d \<Rightarrow> d | None \<Rightarrow> 0)) 0 s"

text \<open>
  \<open>re.sub(r"(\d+)", lambda m: num2words(int(m.group(1)), lang='vi'), text)\<close>: every maximal
  run of digits is replaced by the words of its value. \<open>num2words\<close> belongs to an external
  package; it is the parameter \<open>spell_int\<close>.
\<close>

function sub_cardinal :: "(nat \<Rightarrow> nat option) \<Rightarrow> (nat \<Rightarrow> ustr) \<Rightarrow> ustr \<Rightarrow> ustr" where
  "sub_cardinal dv spell_int [] = []"
| "sub_cardinal dv spell_int (c # cs) =
     (if is_digit dv c
      then spell_int (py_int dv (c # takeWhile (is_digit dv) cs))
             @ sub_cardinal dv spell_int (dropWhile (is_digit dv) cs)
      else c # sub_cardinal dv spell_int cs)"
  by pat_completeness auto
termination
  by (relation "measure (\<lambda>(dv, sp, s). length s)")
     (auto simp: less_Suc_eq_le length_dropWhile_le)

text \<open>
  One attempt of \<open>(\d+)\.(\d+)\<close> at the start of \<open>s\<close>: the length of the match. Both
  groups are greedy; since the full stop is not a digit, the first group cannot give
  characters back to let the rest match.
\<close>

definition match_decimal :: "(nat \<Rightarrow> nat option) \<Rightarrow> ustr \<Rightarrow> nat option" where
  "match_decimal dv s =
     (let d1 = takeWhile (is_digit dv) s; r = dropWhile (is_digit dv) s in
      if d1 = [] then None
      else (case r of
              [] \<Rightarrow> None
            | p # r' \<Rightarrow>
                if p = 46
                then (let d2 = takeWhile (is_digit dv) r' in
                      if d2 = [] then None else Some (length d1 + 1 + length d2))
                else None))"

text \<open>
  \<open>re.sub(r"(\d+)\.(\d+)", lambda m: num2words(float(m.group(0)), lang='vi'), text)\<close>. The
  reading of the matched text as a float and its words are the parameter \<open>spell_float\<close>,
  applied to the matched text.
\<close>

function sub_decimal :: "(nat \<Rightarrow> nat option) \<Rightarrow> (ustr \<Rightarrow> ustr) \<Rightarrow> ustr \<Rightarrow> ustr" where
  "sub_decimal dv spell_float [] = []"
| "sub_decimal dv spell_float (c # cs) =
     (case match_decimal dv (c # cs) of
        Some n \<Rightarrow> spell_float (take n (c # cs)) @ sub_decimal dv spell_float (drop n (c # cs))
      | None \<Rightarrow> c # sub_decimal dv spell_float cs)"
  by pat_completeness auto
termination
  by (relation "measure (\<lambda>(dv, sp, s). length s)")
     (auto simp: match_decimal_def Let_def split: if_splits list.splits)

text \<open>
  The patterns are applied in the order of the list: the cardinal pattern first, the
  decimal pattern second.
\<close>

definition normalize_numbers ::
  "(nat \<Rightarrow> nat option) \<Rightarrow> (nat \<Rightarrow> ustr) \<Rightarrow> (ustr \<Rightarrow> ustr) \<Rightarrow> ustr \<Rightarrow> ustr" where
  "normalize_numbers dv spell_int spell_float text =
     sub_decimal dv spell_float (sub_cardinal dv spell_int text)"

definition normalize_text ::
  "(nat \<Rightarrow> nat option) \<Rightarrow> (nat \<Rightarrow> ustr) \<Rightarrow> (ustr \<Rightarrow> ustr) \<Rightarrow> ustr \<Rightarrow> ustr" where
  "normalize_text dv spell_int spell_float text = normalize_numbers dv spell_int spell_float text"

text \<open>
  An instance of the external number reader, for evaluating the functions on concrete
  input: it reads a number digit by digit in Vietnamese (the words for 0, 1, 2, ... 9, by their
  code points), and the full stop of a decimal as the word for a decimal comma.
\<close>

definition vi_digit_word :: "nat \<Rightarrow> ustr" where
  "vi_digit_word d =
     (if d = 0 then [107, 104, 244, 110, 103]
      else if d = 1 then [109, 7897, 116]
      else if d = 2 then [104, 97, 105]
      else if d = 3 then [98, 97]
      else if d = 4 then [98, 7889, 110]
      else if d = 5 then [110, 259, 109]
      else if d = 6 then [115, 225, 117]
      else if d = 7 then [98, 7843, 121]
      else if d = 8 then [116, 225, 109]
      else [99, 104, 237, 110])"

fun example_num2words :: "nat \<Rightarrow> ustr" where
  "example_num2words n =
     (if n < 10 then vi_digit_word n
      else example_num2words (n div 10) @ 32 # vi_digit_word (n mod 10))"

declare example_num2words.simps [simp del]

definition example_num2words_float :: "ustr \<Rightarrow> ustr" where
  "example_num2words_float s =
     join_sp (map (\<lambda>c. if c = 46 then [112, 104, 7849, 121] else vi_digit_word (c - 48)) s)"

definition has_digit :: "(nat \<Rightarrow> nat option) \<Rightarrow> ustr \<Rightarrow> bool" where
  "has_digit dv s = list_ex (is_digit dv) s"

section \<open>Silence trimming (\<open>trim_silence\<close>, the same body in both helper files)\<close>

text \<open>
  \<open>IndexError\<close> is what an index lookup on an empty sequence raises; \<open>EngineError\<close> stands
  for any exception of the external synthesis engine. \<open>SilentAudio\<close> is the error kind the
  specification names for a fully silent buffer; no function of the source raises it.
\<close>

datatype error = IndexError | SilentAudio | EngineError

text \<open>
  \<open>np.where(rms > threshold)[0]\<close>: the indices of the frames above the threshold, ascending.
  The energies are floats; only their comparison with the threshold is used, and they
  are modelled as rationals.
\<close>

definition np_where_gt :: "rat list \<Rightarrow> rat \<Rightarrow> nat list" where
  "np_where_gt rms threshold = filter (\<lambda>i. threshold < rms ! i) [0..<length rms]"

text \<open>\<open>xs[-1]\<close>: raises \<open>IndexError\<close> on an empty sequence.\<close>

definition py_last :: "'a list \<Rightarrow> error + 'a" where
  "py_last xs = (if xs = [] then Inl IndexError else Inr (last xs))"

text \<open>\<open>int(x)\<close> on a float: truncation towards zero.\<close>

definition py_trunc :: "rat \<Rightarrow> int" where
  "py_trunc x = (if x < 0 then \<lceil>x\<rceil> else \<lfloor>x\<rfloor>)"

text \<open>
  \<open>librosa.feature.rms(y=audio_data, frame_length=..., hop_length=...)[0]\<close> is external: the
  parameter \<open>rms_of\<close>. \<open>librosa.frames_to_samples(frame, hop_length=h)\<close> is \<open>frame * h\<close>. The
  product \<open>keep_silence_duration * sr\<close> is computed in floating point by the source and
  exactly here.
\<close>

definition trim_silence ::
  "('a list \<Rightarrow> nat \<Rightarrow> nat \<Rightarrow> rat list) \<Rightarrow> 'a list \<Rightarrow> int \<Rightarrow> rat \<Rightarrow> nat \<Rightarrow> nat \<Rightarrow> rat
     \<Rightarrow> error + 'a list" where
  "trim_silence rms_of audio_data sr threshold frame_length hop_length keep_silence_duration =
     (let rms = rms_of audio_data frame_length hop_length in
      case py_last (np_where_gt rms threshold) of
        Inl e \<Rightarrow> Inl e
      | Inr last_frame \<Rightarrow>
          (let last_sample = int (last_frame * hop_length);
               keep_silence_samples = py_trunc (keep_silence_duration * of_int sr)
           in Inr (py_slice_to audio_data
                     (min (last_sample + keep_silence_samples) (int (length audio_data))))))"

text \<open>
  \<open>fine_tune_audio\<close> of \<open>wrapper/helper.py\<close>. The keyword arguments are a map from keyword
  to value; \<open>DEFAULT_SAMPLE_RATE\<close> comes from a constants module that is not among the
  sources and is a parameter; the environment variable \<open>XTTS_KEEP_SILENCE_DURATION\<close> is
  the parameter \<open>keep_env\<close> (its value read as a number, \<open>None\<close> when unset).
\<close>

definition fine_tune_audio ::
  "('a list \<Rightarrow> nat \<Rightarrow> nat \<Rightarrow> rat list) \<Rightarrow> int \<Rightarrow> rat option \<Rightarrow> 'a list \<Rightarrow> (string \<rightharpoonup> int)
     \<Rightarrow> error + 'a list" where
  "fine_tune_audio rms_of DEFAULT_SAMPLE_RATE keep_env audio kwargs =
     (let sample_rate = (case kwargs ''sample_rate'' of Some v \<Rightarrow> v | None \<Rightarrow> DEFAULT_SAMPLE_RATE);
          keep_silence = (case keep_env of Some v \<Rightarrow> v | None \<Rightarrow> 2 / 10)
      in trim_silence rms_of audio sample_rate (1 / 100) 2048 512 keep_silence)"

text \<open>
  \<open>fine_tune_audio\<close> of the legacy \<open>helper.py\<close>: it reads the keyword \<open>gpt_cond_latent\<close>, and
  \<open>trim_silence\<close> there keeps 0.8 seconds by default.
\<close>

definition legacy_fine_tune_audio ::
  "('a list \<Rightarrow> nat \<Rightarrow> nat \<Rightarrow> rat list) \<Rightarrow> int \<Rightarrow> 'a list \<Rightarrow> (string \<rightharpoonup> int) \<Rightarrow> error + 'a list" where
  "legacy_fine_tune_audio rms_of DEFAULT_SAMPLE_RATE audio kwargs =
     (let sample_rate =
            (case kwargs ''gpt_cond_latent'' of Some v \<Rightarrow> v | None \<Rightarrow> DEFAULT_SAMPLE_RATE)
      in trim_silence rms_of audio sample_rate (1 / 100) 2048 512 (8 / 10))"

section \<open>Inference parameters (\<open>calculate_inference_params\<close>)\<close>

record params =
  speed :: rat
  length_penalty :: rat
  temperature :: rat
  repetition_penalty :: rat
  enable_text_splitting :: bool

definition is_punct :: "nat \<Rightarrow> bool" where
  "is_punct c \<longleftrightarrow> c = 44 \<or> c = 46 \<or> c = 33 \<or> c = 63 \<or> c = 59 \<or> c = 58 \<or> c = 8212 \<or> c = 45"

text \<open>
  \<open>str.lower\<close> follows the interpreter's Unicode tables and is the parameter \<open>lower\<close>. The
  float literals are the decimal fractions they denote, and the two densities are exact
  quotients.
\<close>

definition calculate_inference_params :: "(ustr \<Rightarrow> ustr) \<Rightarrow> ustr \<Rightarrow> params" where
  "calculate_inference_params lower text0 =
     (let text = strip text0;
          text_len = length text;
          punctuation_count = length (filter is_punct text);
          punctuation_density = (of_nat punctuation_count / of_nat (max text_len 1) :: rat);
          words = split_ws (lower text);
          unique_words = length (remdups words);
          word_count = length words;
          word_diversity = (of_nat unique_words / of_nat (max word_count 1) :: rat)
      in if word_count < 15
         then \<lparr>speed = 104 / 100, length_penalty = 75 / 100, temperature = 8 / 10,
               repetition_penalty = 15 / 10, enable_text_splitting = False\<rparr>
         else \<lparr>speed = (if punctuation_density > 5 / 100 then 98 / 100
                        else if text_len > 200 then 95 / 100 else 1),
               length_penalty = (if text_len < 80 then 1
                                 else if text_len > 200 then 11 / 10 else 105 / 100),
               temperature = (if word_diversity > 7 / 10 then 75 / 100
                              else if word_diversity < 5 / 10 then 7 / 10 else 72 / 100),
               repetition_penalty = (if word_count > 50 \<and> word_diversity < 6 / 10 then 4
                                     else if word_count > 30 then 3 else 2),
               enable_text_splitting = False\<rparr>)"

section \<open>Segmentation (\<open>split_into_sentences\<close>)\<close>

definition ELLIPSIS_TOKEN :: ustr where
  "ELLIPSIS_TOKEN = [10214, 69, 76, 76, 73, 80, 83, 73, 83, 10215]"

definition is_terminal :: "nat \<Rightarrow> bool" where
  "is_terminal c \<longleftrightarrow> c = 46 \<or> c = 33 \<or> c = 63"

definition is_closer :: "nat \<Rightarrow> bool" where
  "is_closer c \<longleftrightarrow> c = 34 \<or> c = 39 \<or> c = 8221 \<or> c = 8217 \<or> c = 41 \<or> c = 93"

text \<open>
  One attempt of the boundary pattern (the placeholder or one of \<open>.!?\<close>, then closing
  quotes and brackets, then whitespace) at the start of \<open>s\<close>: the length of the match.
  The placeholder does not start with a terminal character, no closer is whitespace, and
  both repetitions are greedy, so the match is the longest run of each.
\<close>

definition match_boundary :: "ustr \<Rightarrow> nat option" where
  "match_boundary s =
     (let head = (if prefix ELLIPSIS_TOKEN s then Some (length ELLIPSIS_TOKEN)
                  else (case s of [] \<Rightarrow> None | c # _ \<Rightarrow> if is_terminal c then Some 1 else None))
      in case head of
           None \<Rightarrow> None
         | Some k \<Rightarrow>
             (let closers = takeWhile is_closer (drop k s);
                  spaces = takeWhile isspace (dropWhile is_closer (drop k s))
              in if spaces = [] then None else Some (k + length closers + length spaces)))"

text \<open>\<open>if chunk: base_sentences.append(chunk.replace(ELLIPSIS_TOKEN, "..."))\<close> for
  \<open>chunk = piece.strip()\<close>.\<close>

definition base_sentence :: "ustr \<Rightarrow> ustr list" where
  "base_sentence piece =
     (let chunk = strip piece in
      if chunk = [] then [] else [replace ELLIPSIS_TOKEN [46, 46, 46] chunk])"

text \<open>
  The loop over \<open>re.finditer(boundary_pattern, text)\<close> and the tail after it: \<open>pending\<close> is
  the text from \<open>start\<close> to the position the scan has reached. A match closes the piece
  at its end and the scan goes on from there; without a match the scan moves on by one
  character.
\<close>

function base_split :: "ustr \<Rightarrow> ustr \<Rightarrow> ustr list" where
  "base_split pending [] = base_sentence pending"
| "base_split pending (c # cs) =
     (case match_boundary (c # cs) of
        Some n \<Rightarrow> base_sentence (pending @ take n (c # cs)) @ base_split [] (drop n (c # cs))
      | None \<Rightarrow> base_split (pending @ [c]) cs)"
  by pat_completeness auto
termination
  by (relation "measure (\<lambda>(pending, s). length s)")
     (auto simp: match_boundary_def Let_def split: if_splits option.splits list.splits)

definition is_soft_delim :: "nat \<Rightarrow> bool" where
  "is_soft_delim c \<longleftrightarrow> c = 44 \<or> c = 59 \<or> c = 58 \<or> c = 45 \<or> c = 8211 \<or> c = 8212"

text \<open>\<open>re.split(soft_delims_regex, sentence)\<close>: the pattern is one capturing group, so the
  result alternates the text between delimiters and the delimiters themselves.\<close>

fun re_split_soft :: "ustr \<Rightarrow> ustr \<Rightarrow> ustr list" where
  "re_split_soft piece [] = [piece]"
| "re_split_soft piece (c # cs) =
     (if is_soft_delim c then piece # [c] # re_split_soft [] cs
      else re_split_soft (piece @ [c]) cs)"

text \<open>\<open>re.fullmatch(soft_delims_regex, d)\<close>.\<close>

definition fullmatch_soft :: "ustr \<Rightarrow> bool" where
  "fullmatch_soft d = (case d of [c] \<Rightarrow> is_soft_delim c | _ \<Rightarrow> False)"

text \<open>\<open>if token: merged.append(token.strip())\<close>.\<close>

definition merged_token :: "ustr \<Rightarrow> ustr list" where
  "merged_token token = (if token = [] then [] else [strip token])"

text \<open>The \<open>while i < len(parts)\<close> loop that re-attaches each delimiter to the part before it.\<close>

fun merge_parts :: "ustr list \<Rightarrow> ustr list" where
  "merge_parts [] = []"
| "merge_parts [p] = merged_token p"
| "merge_parts (p # d # ps) =
     (if fullmatch_soft d then merged_token (p @ d) @ merge_parts ps
      else merged_token p @ merge_parts (d # ps))"

definition vi_conj :: "ustr \<Rightarrow> ustr list" where
  "vi_conj language =
     (if language = [118, 105]
      then [[118, 224], [110, 104, 432, 110, 103], [104, 111, 7863, 99], [114, 7891, 105],
            [116, 104, 236], [108, 224], [110, 234, 110], [118, 236], [98, 7903, 105],
            [116, 117, 121], [100, 249]]
      else [])"

definition smart_can_add :: "int \<Rightarrow> ustr \<Rightarrow> int \<Rightarrow> bool" where
  "smart_can_add max_len tok cur_len \<longleftrightarrow>
     cur_len + (if cur_len > 0 then 1 else 0) + int (length tok) \<le> max_len"

definition flush :: "ustr list \<Rightarrow> ustr option" where
  "flush buffer_tokens =
     (let chunk = strip (join_sp buffer_tokens) in if chunk = [] then None else Some chunk)"

text \<open>\<open>if out: chunks.append(out)\<close>: the chunks one flush adds.\<close>

definition flushed :: "ustr list \<Rightarrow> ustr list" where
  "flushed buffer_tokens = (case flush buffer_tokens of None \<Rightarrow> [] | Some out \<Rightarrow> [out])"

text \<open>
  The test on the last token of a full buffer: \<open>last_word in vi_conj or (len(last) == 1 and
  last in ",;:-")\<close> with \<open>last_word = last.lower().strip(chars)\<close>, where \<open>chars\<close> are the
  full stop, comma, semicolon, colon, hyphen, em dash, en dash and space.
\<close>

definition is_deferred :: "(ustr \<Rightarrow> ustr) \<Rightarrow> ustr list \<Rightarrow> ustr \<Rightarrow> bool" where
  "is_deferred lower conjs last_tok \<longleftrightarrow>
     strip_chars [46, 44, 59, 58, 45, 8212, 8211, 32] (lower last_tok) \<in> set conjs
     \<or> (length last_tok = 1 \<and> last_tok \<in> set [[44], [59], [58], [45]])"

text \<open>
  The greedy packing loop over the merged tokens, with the buffer and \<open>current_len\<close> as
  its state; the result is the list of chunks the loop and the final flush append. When
  the test above holds, \<open>buffer.pop()\<close> removes the last token, and the next buffer
  starts as \<open>[tok_stripped]\<close>.
\<close>

fun pack :: "(ustr \<Rightarrow> ustr) \<Rightarrow> int \<Rightarrow> ustr list \<Rightarrow> ustr list \<Rightarrow> int \<Rightarrow> ustr list \<Rightarrow> ustr list" where
  "pack lower max_len conjs buffer current_len [] = flushed buffer"
| "pack lower max_len conjs buffer current_len (tok # toks) =
     (let tok_stripped = strip tok in
      if tok_stripped = [] then pack lower max_len conjs buffer current_len toks
      else if smart_can_add max_len tok_stripped current_len
      then pack lower max_len conjs (buffer @ [tok_stripped])
             (current_len + (if current_len > 0 then 1 else 0) + int (length tok_stripped)) toks
      else flushed (if buffer \<noteq> [] \<and> is_deferred lower conjs (last buffer)
                    then butlast buffer else buffer)
             @ pack lower max_len conjs [tok_stripped] (int (length tok_stripped)) toks)"

text \<open>The body of the loop over the base sentences: the chunks one sentence adds.\<close>

definition chunk_sentence :: "(ustr \<Rightarrow> ustr) \<Rightarrow> int \<Rightarrow> ustr list \<Rightarrow> ustr \<Rightarrow> ustr list" where
  "chunk_sentence lower max_len conjs sent =
     (let sentence = strip sent in
      if int (length sentence) \<le> max_len then [sentence]
      else pack lower max_len conjs [] 0 (merge_parts (re_split_soft [] sentence)))"

text \<open>
  The first stage: the paragraph is stripped, the unicode ellipsis becomes three dots,
  three dots become the placeholder, and the text is cut at the boundaries.
\<close>

definition base_sentences :: "ustr \<Rightarrow> ustr list" where
  "base_sentences paragraph =
     (let text = strip paragraph;
          text1 = replace [8230] [46, 46, 46] text;
          text2 = replace [46, 46, 46] ELLIPSIS_TOKEN text1
      in base_split [] text2)"

definition split_into_sentences :: "(ustr \<Rightarrow> ustr) \<Rightarrow> ustr \<Rightarrow> int \<Rightarrow> ustr \<Rightarrow> ustr list" where
  "split_into_sentences lower paragraph max_len language =
     (if paragraph = [] then []
      else concat (map (chunk_sentence lower max_len (vi_conj language))
                     (base_sentences paragraph)))"

text \<open>
  For comparing the chunks with the paragraph: the text as the first stage rewrites it
  (the unicode ellipsis to three dots, three dots to the placeholder and the placeholder
  back to three dots), \<open>" ".join(s.split())\<close>, and a text without its whitespace.
\<close>

definition ellipsis_normalize :: "ustr \<Rightarrow> ustr" where
  "ellipsis_normalize paragraph =
     replace ELLIPSIS_TOKEN [46, 46, 46]
       (replace [46, 46, 46] ELLIPSIS_TOKEN (replace [8230] [46, 46, 46] paragraph))"

definition normalize_ws :: "ustr \<Rightarrow> ustr" where
  "normalize_ws s = join_sp (split_ws s)"

definition remove_ws :: "ustr \<Rightarrow> ustr" where
  "remove_ws s = filter (\<lambda>c. \<not> isspace c) s"

text \<open>
  An instance of \<open>str.lower\<close> for evaluating on concrete input: it lowers the ASCII letters
  and leaves every other code point as it is, which is what \<open>str.lower\<close> does on a string
  whose other characters are lower-case or uncased.
\<close>

definition ascii_lower :: "ustr \<Rightarrow> ustr" where
  "ascii_lower s = map (\<lambda>c. if 65 \<le> c \<and> c \<le> 90 then c + 32 else c) s"

section \<open>The pipeline (\<open>paragraph_to_audio\<close> of \<open>wrapper/helper.py\<close>)\<close>

text \<open>
  What the pipeline takes from outside the repository's Python: the Unicode tables, the
  number reader, the energy computation, the synthesis engine behind
  \<open>XTTSWrapper.inference\<close> (its \<open>"wav"\<close> entry, or the exception it raises), the two
  constants of the constants module and the environment variable.
\<close>

record 'a externals =
  ext_lower :: "ustr \<Rightarrow> ustr"
  ext_digit_val :: "nat \<Rightarrow> nat option"
  ext_spell_int :: "nat \<Rightarrow> ustr"
  ext_spell_float :: "ustr \<Rightarrow> ustr"
  ext_rms :: "'a list \<Rightarrow> nat \<Rightarrow> nat \<Rightarrow> rat list"
  ext_inference :: "ustr \<Rightarrow> ustr \<Rightarrow> params \<Rightarrow> error + 'a list"
  ext_sample_rate :: int
  ext_file_length :: int
  ext_keep_env :: "rat option"

text \<open>\<open>f"{index}_{sentence[:DEFAULT_OUTPUT_FILE_LENGTH]}"\<close>.\<close>

definition audio_name :: "int \<Rightarrow> nat \<Rightarrow> ustr \<Rightarrow> ustr" where
  "audio_name file_length index sentence = str_nat index @ 95 # py_slice_to sentence file_length"

text \<open>
  The loop over \<open>enumerate(sentences)\<close>. The dictionary keeps insertion order and an
  assignment to a key it has replaces the value in place: an association list with
  \<open>AList.update\<close>. An exception of the engine or of the trimmer leaves the loop.
\<close>

fun audio_loop ::
  "'a externals \<Rightarrow> ustr \<Rightarrow> (nat \<times> ustr) list \<Rightarrow> (ustr \<times> 'a list) list
     \<Rightarrow> error + (ustr \<times> 'a list) list" where
  "audio_loop ext language [] audio_map = Inr audio_map"
| "audio_loop ext language ((index, sentence) # rest) audio_map =
     (let text = strip sentence in
      if text = [] then audio_loop ext language rest audio_map
      else (let text' = normalize_text (ext_digit_val ext) (ext_spell_int ext)
                          (ext_spell_float ext) text;
                inference_params = calculate_inference_params (ext_lower ext) text'
            in case ext_inference ext text' language inference_params of
                 Inl e \<Rightarrow> Inl e
               | Inr out_wav \<Rightarrow>
                   (case fine_tune_audio (ext_rms ext) (ext_sample_rate ext) (ext_keep_env ext)
                           out_wav [''sample_rate'' \<mapsto> ext_sample_rate ext] of
                      Inl e \<Rightarrow> Inl e
                    | Inr tuned_audio \<Rightarrow>
                        audio_loop ext language rest
                          (AList.update (audio_name (ext_file_length ext) index sentence)
                             tuned_audio audio_map))))"

definition paragraph_to_audio ::
  "'a externals \<Rightarrow> ustr \<Rightarrow> ustr \<Rightarrow> error + (ustr \<times> 'a list) list" where
  "paragraph_to_audio ext paragraph language =
     (let sentences = split_into_sentences (ext_lower ext) paragraph 250 language
      in audio_loop ext language (enumerate 0 sentences) [])"

text \<open>
  For stating what the loop computes: one chunk taken through the steps in their order
  (strip, normalise the numbers, compute the parameters from the normalised text,
  synthesise, trim, name the result after the index and the chunk as it was before
  normalisation), and the results of a list of steps collected up to the first exception.
\<close>

definition synthesize_chunk ::
  "'a externals \<Rightarrow> ustr \<Rightarrow> nat \<Rightarrow> ustr \<Rightarrow> error + (ustr \<times> 'a list)" where
  "synthesize_chunk ext language index sentence =
     (let normalized = normalize_numbers (ext_digit_val ext) (ext_spell_int ext)
                         (ext_spell_float ext) (strip sentence);
          inference_params = calculate_inference_params (ext_lower ext) normalized
      in case ext_inference ext normalized language inference_params of
           Inl e \<Rightarrow> Inl e
         | Inr wav \<Rightarrow>
             (case trim_silence (ext_rms ext) wav (ext_sample_rate ext) (1 / 100) 2048 512
                     (case ext_keep_env ext of Some v \<Rightarrow> v | None \<Rightarrow> 2 / 10) of
                Inl e \<Rightarrow> Inl e
              | Inr trimmed \<Rightarrow>
                  Inr (str_nat index @ 95 # py_slice_to sentence (ext_file_length ext),
                       trimmed)))"

fun collect :: "(error + 'b) list \<Rightarrow> error + 'b list" where
  "collect [] = Inr []"
| "collect (Inl e # rs) = Inl e"
| "collect (Inr x # rs) = (case collect rs of Inl e \<Rightarrow> Inl e | Inr xs \<Rightarrow> Inr (x # xs))"

text \<open>
  Externals for evaluating the pipeline on concrete input: the engine returns the code
  points of the text as its samples, the energy computation reports one active frame, the
  rate is 10 and keys keep 3 characters of the chunk.
\<close>

definition example_externals :: "nat externals" where
  "example_externals =
     \<lparr>ext_lower = ascii_lower, ext_digit_val = ascii_digit_val,
      ext_spell_int = example_num2words, ext_spell_float = example_num2words_float,
      ext_rms = (\<lambda>audio frame_length hop_length. [1]),
      ext_inference = (\<lambda>text language inference_params. Inr text),
      ext_sample_rate = 10, ext_file_length = 3, ext_keep_env = None\<rparr>"

section \<open>Number normalisation: what one pass leaves\<close>

lemma has_digit_append [simp]: "has_digit dv (a @ b) = (has_digit dv a \<or> has_digit dv b)"
  by (simp add: has_digit_def)

lemma has_digit_Cons [simp]: "has_digit dv (c # s) = (is_digit dv c \<or> has_digit dv s)"
  by (simp add: has_digit_def)

lemma has_digit_Nil [simp]: "\<not> has_digit dv []"
  by (simp add: has_digit_def)

lemma sub_cardinal_digit_free:
  assumes "\<And>n. \<not> has_digit dv (spell_int n)"
  shows "\<not> has_digit dv (sub_cardinal dv spell_int s)"
  using assms by (induction dv spell_int s rule: sub_cardinal.induct) auto

lemma takeWhile_digit_free: "\<not> has_digit dv s \<Longrightarrow> takeWhile (is_digit dv) s = []"
  by (cases s) auto

lemma match_decimal_digit_free: "\<not> has_digit dv s \<Longrightarrow> match_decimal dv s = None"
  by (simp add: match_decimal_def takeWhile_digit_free)

lemma sub_decimal_digit_free: "\<not> has_digit dv s \<Longrightarrow> sub_decimal dv spell_float s = s"
proof (induction s)
  case Nil
  then show ?case by simp
next
  case (Cons c s)
  from Cons.prems have "match_decimal dv (c # s) = None"
    by (rule match_decimal_digit_free)
  with Cons show ?case by simp
qed

lemma sub_cardinal_digit_free_id: "\<not> has_digit dv s \<Longrightarrow> sub_cardinal dv spell_int s = s"
  by (induction s) auto

lemma vi_digit_word_free: "\<not> has_digit ascii_digit_val (vi_digit_word d)"
  by (simp add: vi_digit_word_def is_digit_def ascii_digit_val_def)

lemma example_num2words_free: "\<not> has_digit ascii_digit_val (example_num2words n)"
proof (induction n rule: example_num2words.induct)
  case (1 n)
  show ?case
  proof (cases "n < 10")
    case True
    then show ?thesis by (simp add: example_num2words.simps [of n] vi_digit_word_free)
  next
    case False
    with 1 show ?thesis
      by (simp add: example_num2words.simps [of n] vi_digit_word_free)
         (simp add: is_digit_def ascii_digit_val_def)
  qed
qed

text \<open>
  Claim C9. When the number reader returns words without digits, the result of
  \<open>normalize_numbers\<close> has no digit left, and normalising the result again returns it
  unchanged.
\<close>

theorem normalize_numbers_digit_free_idempotent:
  assumes "\<And>n. \<not> has_digit dv (spell_int n)"
  shows "\<not> has_digit dv (normalize_numbers dv spell_int spell_float text)
       \<and> normalize_numbers dv spell_int spell_float
           (normalize_numbers dv spell_int spell_float text)
         = normalize_numbers dv spell_int spell_float text"
proof -
  have free: "\<not> has_digit dv (sub_cardinal dv spell_int text)"
    using assms by (rule sub_cardinal_digit_free)
  then have eq: "normalize_numbers dv spell_int spell_float text = sub_cardinal dv spell_int text"
    by (simp add: normalize_numbers_def sub_decimal_digit_free)
  show ?thesis
    using free
    by (simp add: eq)
       (simp add: normalize_numbers_def sub_decimal_digit_free sub_cardinal_digit_free_id)
qed

text \<open>
  The theorem at the example sentence of the docstring, "I have 2 cats" in Vietnamese
  (its letters by their code points): the digit 2 becomes the word for two.
\<close>

theorem normalize_numbers_digit_free_idempotent_witness:
  "\<not> has_digit ascii_digit_val
        (normalize_numbers ascii_digit_val example_num2words example_num2words_float
           [84, 244, 105, 32, 99, 243, 32, 50, 32, 99, 111, 110, 32, 109, 232, 111])
   \<and> normalize_numbers ascii_digit_val example_num2words example_num2words_float
        (normalize_numbers ascii_digit_val example_num2words example_num2words_float
           [84, 244, 105, 32, 99, 243, 32, 50, 32, 99, 111, 110, 32, 109, 232, 111])
       = normalize_numbers ascii_digit_val example_num2words example_num2words_float
           [84, 244, 105, 32, 99, 243, 32, 50, 32, 99, 111, 110, 32, 109, 232, 111]
   \<and> normalize_numbers ascii_digit_val example_num2words example_num2words_float
        [84, 244, 105, 32, 99, 243, 32, 50, 32, 99, 111, 110, 32, 109, 232, 111]
       = [84, 244, 105, 32, 99, 243, 32, 104, 97, 105, 32, 99, 111, 110, 32, 109, 232, 111]"
proof -
  have eval: "normalize_numbers ascii_digit_val example_num2words example_num2words_float
        [84, 244, 105, 32, 99, 243, 32, 50, 32, 99, 111, 110, 32, 109, 232, 111]
       = [84, 244, 105, 32, 99, 243, 32, 104, 97, 105, 32, 99, 111, 110, 32, 109, 232, 111]"
    by (simp add: normalize_numbers_def is_digit_def ascii_digit_val_def py_int_def
          example_num2words.simps vi_digit_word_def match_decimal_def)
  show ?thesis
    using normalize_numbers_digit_free_idempotent
            [of ascii_digit_val example_num2words example_num2words_float
                "[84, 244, 105, 32, 99, 243, 32, 50, 32, 99, 111, 110, 32, 109, 232, 111]"]
          example_num2words_free eval
    by simp
qed

section \<open>Number normalisation: a decimal is read as two integers\<close>

lemma sub_cardinal_run:
  assumes "list_all (is_digit dv) ds" "ds \<noteq> []" "\<not> is_digit dv p"
  shows "sub_cardinal dv spell_int (ds @ p # rest)
           = spell_int (py_int dv ds) @ p # sub_cardinal dv spell_int rest"
proof -
  from assms obtain c ds' where ds: "ds = c # ds'" by (cases ds) auto
  with assms have c: "is_digit dv c" and all: "\<forall>x\<in>set ds'. is_digit dv x"
    by (auto simp: list_all_iff)
  have tw: "takeWhile (is_digit dv) (ds' @ p # rest) = ds'"
    using all assms(3) by simp
  have dw: "dropWhile (is_digit dv) (ds' @ p # rest) = p # rest"
    using all assms(3) by simp
  show ?thesis using c assms(3) by (simp add: ds tw dw)
qed

lemma sub_cardinal_run_end:
  assumes "list_all (is_digit dv) ds" "ds \<noteq> []"
  shows "sub_cardinal dv spell_int ds = spell_int (py_int dv ds)"
proof -
  from assms obtain c ds' where ds: "ds = c # ds'" by (cases ds) auto
  with assms have c: "is_digit dv c" and all: "\<forall>x\<in>set ds'. is_digit dv x"
    by (auto simp: list_all_iff)
  have tw: "takeWhile (is_digit dv) ds' = ds'" using all by simp
  have dw: "dropWhile (is_digit dv) ds' = []" using all by simp
  show ?thesis using c by (simp add: ds tw dw)
qed

text \<open>
  Claim C3. The claim says the decimal pattern is applied first, so that "2.5" is read
  as one decimal. The code applies the cardinal pattern first: for digit runs \<open>a\<close> and \<open>b\<close>
  the text \<open>a.b\<close> becomes the words of the integer \<open>a\<close>, a full stop and the words of the
  integer \<open>b\<close>, and the decimal reader \<open>spell_float\<close> is never consulted.
\<close>

theorem normalize_numbers_decimal_read_as_two_integers:
  assumes "\<And>n. \<not> has_digit dv (spell_int n)" and "dv 46 = None"
    and "list_all (is_digit dv) a" and "a \<noteq> []" and "list_all (is_digit dv) b" and "b \<noteq> []"
  shows "normalize_numbers dv spell_int spell_float (a @ 46 # b)
           = spell_int (py_int dv a) @ 46 # spell_int (py_int dv b)"
proof -
  have dot: "\<not> is_digit dv 46" using assms(2) by (simp add: is_digit_def)
  have "sub_cardinal dv spell_int (a @ 46 # b)
          = spell_int (py_int dv a) @ 46 # spell_int (py_int dv b)"
    using assms dot by (simp add: sub_cardinal_run sub_cardinal_run_end)
  moreover have "\<not> has_digit dv (spell_int (py_int dv a) @ 46 # spell_int (py_int dv b))"
    using assms(1) dot by simp
  ultimately show ?thesis
    by (simp add: normalize_numbers_def sub_decimal_digit_free)
qed

text \<open>
  The theorem at "2.5": the result is the word for two, a full stop and the word for
  five, not the decimal reading (two, decimal comma, five) of the example reader.
\<close>

theorem normalize_numbers_decimal_read_as_two_integers_witness:
  "normalize_numbers ascii_digit_val example_num2words example_num2words_float [50, 46, 53]
     = [104, 97, 105, 46, 110, 259, 109]
   \<and> example_num2words_float [50, 46, 53]
       = [104, 97, 105, 32, 112, 104, 7849, 121, 32, 110, 259, 109]"
  using normalize_numbers_decimal_read_as_two_integers
          [of ascii_digit_val example_num2words "[50]" "[53]" example_num2words_float]
        example_num2words_free
  by (simp add: is_digit_def ascii_digit_val_def py_int_def example_num2words.simps
        example_num2words_float_def vi_digit_word_def)

section \<open>Silence trimming: the kept prefix\<close>









section \<open>Silence trimming: the silent buffer\<close>




section \<open>The legacy \<open>fine_tune_audio\<close>\<close>

text \<open>
  Claim C10. In the legacy \<open>fine_tune_audio\<close> a call that passes \<open>sample_rate=X\<close> with \<open>X\<close>
  other than \<open>DEFAULT_SAMPLE_RATE\<close> and no \<open>gpt_cond_latent\<close> keyword runs \<open>trim_silence\<close>
  with \<open>sr = DEFAULT_SAMPLE_RATE\<close>.
\<close>

theorem legacy_fine_tune_audio_ignores_sample_rate:
  assumes "kwargs ''sample_rate'' = Some X" and "X \<noteq> DEFAULT_SAMPLE_RATE"
    and "kwargs ''gpt_cond_latent'' = None"
  shows "legacy_fine_tune_audio rms_of DEFAULT_SAMPLE_RATE audio kwargs
           = trim_silence rms_of audio DEFAULT_SAMPLE_RATE (1 / 100) 2048 512 (8 / 10)"
  using assms by (simp add: legacy_fine_tune_audio_def)

text \<open>
  The theorem with a default rate of 10, \<open>sample_rate=5\<close> and one active frame: 8 samples
  (0.8 seconds at rate 10) are kept, where the rate 5 would keep 4.
\<close>

theorem legacy_fine_tune_audio_ignores_sample_rate_witness:
  "legacy_fine_tune_audio (\<lambda>a f h. [1]) 10 [1, 2, 3, 4, 5, 6, 7, 8, 9, 10, 11, 12 :: int]
     [''sample_rate'' \<mapsto> 5] = Inr [1, 2, 3, 4, 5, 6, 7, 8]
   \<and> trim_silence (\<lambda>a f h. [1]) [1, 2, 3, 4, 5, 6, 7, 8, 9, 10, 11, 12 :: int] 5 (1 / 100)
       2048 512 (8 / 10) = Inr [1, 2, 3, 4]"
proof -
  have ten: "trim_silence (\<lambda>a f h. [1]) [1, 2, 3, 4, 5, 6, 7, 8, 9, 10, 11, 12 :: int] 10
               (1 / 100) 2048 512 (8 / 10) = Inr [1, 2, 3, 4, 5, 6, 7, 8]"
    by code_simp
  have five: "trim_silence (\<lambda>a f h. [1]) [1, 2, 3, 4, 5, 6, 7, 8, 9, 10, 11, 12 :: int] 5
                (1 / 100) 2048 512 (8 / 10) = Inr [1, 2, 3, 4]"
    by code_simp
  show ?thesis
    using legacy_fine_tune_audio_ignores_sample_rate
            [of "[''sample_rate'' \<mapsto> 5]" 5 10 "\<lambda>a f h. [1]"
                "[1, 2, 3, 4, 5, 6, 7, 8, 9, 10, 11, 12 :: int]"]
          ten five
    by simp
qed

section \<open>Inference parameters: the short branch\<close>

text \<open>
  Claim C7. A text of fewer than 15 words (the words of the stripped, lower-cased text, as
  the function counts them) gets exactly the fixed parameters of the short branch; a text
  of 15 words or more never gets them, so 14 and 15 words take different branches; and
  \<open>enable_text_splitting\<close> is false for every text.
\<close>

theorem calculate_inference_params_short_branch:
  "(length (split_ws (lower (strip text))) < 15 \<longrightarrow>
      calculate_inference_params lower text
        = \<lparr>speed = 104 / 100, length_penalty = 75 / 100, temperature = 8 / 10,
           repetition_penalty = 15 / 10, enable_text_splitting = False\<rparr>)
   \<and> (\<not> length (split_ws (lower (strip text))) < 15 \<longrightarrow>
      calculate_inference_params lower text
        \<noteq> \<lparr>speed = 104 / 100, length_penalty = 75 / 100, temperature = 8 / 10,
           repetition_penalty = 15 / 10, enable_text_splitting = False\<rparr>)
   \<and> enable_text_splitting (calculate_inference_params lower text) = False"
  by (simp add: calculate_inference_params_def Let_def)

text \<open>The theorem at the word "a" written 14 times and 15 times, with single spaces.\<close>

theorem calculate_inference_params_short_branch_witness:
  "length (split_ws (ascii_lower (strip
       [97, 32, 97, 32, 97, 32, 97, 32, 97, 32, 97, 32, 97, 32, 97, 32, 97, 32, 97, 32, 97, 32,
        97, 32, 97, 32, 97]))) = 14
   \<and> calculate_inference_params ascii_lower
       [97, 32, 97, 32, 97, 32, 97, 32, 97, 32, 97, 32, 97, 32, 97, 32, 97, 32, 97, 32, 97, 32,
        97, 32, 97, 32, 97]
       = \<lparr>speed = 104 / 100, length_penalty = 75 / 100, temperature = 8 / 10,
          repetition_penalty = 15 / 10, enable_text_splitting = False\<rparr>
   \<and> length (split_ws (ascii_lower (strip
       [97, 32, 97, 32, 97, 32, 97, 32, 97, 32, 97, 32, 97, 32, 97, 32, 97, 32, 97, 32, 97, 32,
        97, 32, 97, 32, 97, 32, 97]))) = 15
   \<and> calculate_inference_params ascii_lower
       [97, 32, 97, 32, 97, 32, 97, 32, 97, 32, 97, 32, 97, 32, 97, 32, 97, 32, 97, 32, 97, 32,
        97, 32, 97, 32, 97, 32, 97]
       \<noteq> \<lparr>speed = 104 / 100, length_penalty = 75 / 100, temperature = 8 / 10,
          repetition_penalty = 15 / 10, enable_text_splitting = False\<rparr>"
proof -
  have n14: "length (split_ws (ascii_lower (strip
       [97, 32, 97, 32, 97, 32, 97, 32, 97, 32, 97, 32, 97, 32, 97, 32, 97, 32, 97, 32, 97, 32,
        97, 32, 97, 32, 97]))) = 14"
    by (simp add: split_ws_def ascii_lower_def strip_def isspace_def)
  have n15: "length (split_ws (ascii_lower (strip
       [97, 32, 97, 32, 97, 32, 97, 32, 97, 32, 97, 32, 97, 32, 97, 32, 97, 32, 97, 32, 97, 32,
        97, 32, 97, 32, 97, 32, 97]))) = 15"
    by (simp add: split_ws_def ascii_lower_def strip_def isspace_def)
  show ?thesis
    using calculate_inference_params_short_branch
            [of ascii_lower "[97, 32, 97, 32, 97, 32, 97, 32, 97, 32, 97, 32, 97, 32, 97, 32,
               97, 32, 97, 32, 97, 32, 97, 32, 97, 32, 97]"]
          calculate_inference_params_short_branch
            [of ascii_lower "[97, 32, 97, 32, 97, 32, 97, 32, 97, 32, 97, 32, 97, 32, 97, 32,
               97, 32, 97, 32, 97, 32, 97, 32, 97, 32, 97, 32, 97]"]
          n14 n15
    by simp
qed

section \<open>Segmentation: stripping and ink\<close>

lemma strip_take_drop:
  "\<exists>i j. strip s = take j (drop i s)"
proof -
  have "dropWhile isspace s = drop (length (takeWhile isspace s)) s"
    by (simp add: dropWhile_eq_drop)
  moreover have "rev (dropWhile isspace (rev t)) = take (length t - length (takeWhile isspace (rev t))) t" for t :: ustr
    by (simp add: dropWhile_eq_drop rev_drop)
  ultimately show ?thesis unfolding strip_def by metis
qed

lemma length_strip_le: "length (strip s) \<le> length s"
proof -
  have "length (dropWhile isspace (rev (dropWhile isspace s))) \<le> length (rev (dropWhile isspace s))"
    by (rule length_dropWhile_le)
  also have "\<dots> \<le> length s" by (simp add: length_dropWhile_le)
  finally show ?thesis by (simp add: strip_def)
qed

lemma set_strip_subset: "set (strip s) \<subseteq> set s"
  by (auto simp: strip_def dest!: set_dropWhileD)

lemma ink_dropWhile: "x \<in> set s \<Longrightarrow> \<not> isspace x \<Longrightarrow> x \<in> set (dropWhile isspace s)"
  by (induction s) auto

lemma ink_strip: "x \<in> set s \<Longrightarrow> \<not> isspace x \<Longrightarrow> x \<in> set (strip s)"
  using ink_dropWhile [of x "rev (dropWhile isspace s)"] ink_dropWhile [of x s]
  by (simp add: strip_def)

lemma strip_nonempty_ink: "strip s \<noteq> [] \<Longrightarrow> list_ex (\<lambda>x. \<not> isspace x) (strip s)"
proof -
  assume "strip s \<noteq> []"
  then have ne: "dropWhile isspace (rev (dropWhile isspace s)) \<noteq> []" by (simp add: strip_def)
  then have "\<not> isspace (hd (dropWhile isspace (rev (dropWhile isspace s))))"
    by (rule hd_dropWhile)
  moreover have "hd (dropWhile isspace (rev (dropWhile isspace s))) \<in> set (strip s)"
    using ne by (simp add: strip_def)
  ultimately show ?thesis by (auto simp: list_ex_iff)
qed

lemma strip_eq_Nil_iff: "strip s = [] \<longleftrightarrow> \<not> list_ex (\<lambda>x. \<not> isspace x) s"
proof
  assume "strip s = []"
  then show "\<not> list_ex (\<lambda>x. \<not> isspace x) s"
    using ink_strip [of _ s] by (auto simp: list_ex_iff)
next
  assume "\<not> list_ex (\<lambda>x. \<not> isspace x) s"
  then show "strip s = []"
    using strip_nonempty_ink [of s] set_strip_subset [of s] by (auto simp: list_ex_iff)
qed

section \<open>Segmentation: the length of a chunk\<close>

lemma set_butlast_take: "set (butlast (take j xs)) \<subseteq> set (butlast xs)"
proof (cases "j < length xs")
  case True
  have a: "set (butlast (take j xs)) \<subseteq> set (take j xs)" by (auto dest: in_set_butlastD)
  have b: "take j xs = take j (butlast xs)" using True by (simp add: take_butlast)
  have "set (take j (butlast xs)) \<subseteq> set (butlast xs)" by (rule set_take_subset)
  with a b show ?thesis by auto
next
  case False
  then show ?thesis by simp
qed

lemma set_butlast_strip: "set (butlast (strip s)) \<subseteq> set (butlast s)"
proof -
  obtain i j where ij: "strip s = take j (drop i s)" using strip_take_drop by blast
  have "set (butlast (take j (drop i s))) \<subseteq> set (butlast (drop i s))" by (rule set_butlast_take)
  also have "butlast (drop i s) = drop i (butlast s)" by (simp add: butlast_drop)
  also have "set (drop i (butlast s)) \<subseteq> set (butlast s)" by (rule set_drop_subset)
  finally show ?thesis by (simp add: ij)
qed

lemma no_inner_delim_strip:
  "\<not> list_ex is_soft_delim (butlast t) \<Longrightarrow> \<not> list_ex is_soft_delim (butlast (strip t))"
  using set_butlast_strip [of t] by (auto simp: list_ex_iff)

lemma merged_token_no_inner:
  "\<not> list_ex is_soft_delim (butlast p) \<Longrightarrow> t \<in> set (merged_token p)
     \<Longrightarrow> \<not> list_ex is_soft_delim (butlast t)"
  by (auto simp: merged_token_def no_inner_delim_strip split: if_splits)

lemma tokens_no_inner:
  "\<not> list_ex is_soft_delim piece \<Longrightarrow> t \<in> set (merge_parts (re_split_soft piece s))
     \<Longrightarrow> \<not> list_ex is_soft_delim (butlast t)"
proof (induction s arbitrary: piece)
  case Nil
  have "\<not> list_ex is_soft_delim (butlast piece)"
    using Nil.prems(1) by (auto simp: list_ex_iff dest: in_set_butlastD)
  then show ?case using Nil.prems(2) by (auto dest: merged_token_no_inner)
next
  case (Cons c s)
  show ?case
  proof (cases "is_soft_delim c")
    case True
    then have "t \<in> set (merged_token (piece @ [c])) \<or> t \<in> set (merge_parts (re_split_soft [] s))"
      using Cons.prems(2) by (auto simp: fullmatch_soft_def)
    then show ?thesis
    proof
      assume "t \<in> set (merged_token (piece @ [c]))"
      then show ?thesis
        using Cons.prems(1) merged_token_no_inner [of "piece @ [c]" t] by simp
    next
      assume "t \<in> set (merge_parts (re_split_soft [] s))"
      then show ?thesis using Cons.IH [of "[]"] by simp
    qed
  next
    case False
    then show ?thesis using Cons.prems Cons.IH [of "piece @ [c]"] by simp
  qed
qed

lemma length_join_sp_snoc:
  "length (join_sp (b @ [t])) = length (join_sp b) + (if b = [] then 0 else 1) + length t"
  by (induction b rule: join_sp.induct) auto

lemma length_join_sp_butlast: "length (join_sp (butlast b)) \<le> length (join_sp b)"
proof (cases "b = []")
  case True
  then show ?thesis by simp
next
  case False
  then have "b = butlast b @ [last b]" by simp
  then have "length (join_sp b) = length (join_sp (butlast b)) + (if butlast b = [] then 0 else 1) + length (last b)"
    using length_join_sp_snoc [of "butlast b" "last b"] by simp
  then show ?thesis by simp
qed

lemma join_sp_nonempty: "b \<noteq> [] \<Longrightarrow> \<forall>t\<in>set b. t \<noteq> [] \<Longrightarrow> join_sp b \<noteq> []"
  by (induction b rule: join_sp.induct) auto

lemma flushed_cases:
  "c \<in> set (flushed b) \<Longrightarrow> c = strip (join_sp b) \<and> c \<noteq> []"
  by (auto simp: flushed_def flush_def Let_def split: if_splits)

lemma flushed_bound:
  assumes c: "c \<in> set (flushed b')" and b': "b' = buffer \<or> b' = butlast buffer"
    and len: "int (length (join_sp buffer)) \<le> current_len"
    and inv: "current_len \<le> max_len \<or> (\<exists>t. buffer = [t] \<and> \<not> list_ex is_soft_delim (butlast t))"
  shows "int (length c) \<le> max_len \<or> \<not> list_ex is_soft_delim (butlast c)"
proof -
  from c have ceq: "c = strip (join_sp b')" and cne: "c \<noteq> []" by (auto dest: flushed_cases)
  have "length (join_sp b') \<le> length (join_sp buffer)"
    using b' length_join_sp_butlast [of buffer] by auto
  then have clen: "int (length c) \<le> current_len"
    using len length_strip_le [of "join_sp b'"] by (simp add: ceq)
  from inv show ?thesis
  proof
    assume "current_len \<le> max_len"
    with clen show ?thesis by simp
  next
    assume "\<exists>t. buffer = [t] \<and> \<not> list_ex is_soft_delim (butlast t)"
    then obtain t where t: "buffer = [t]" "\<not> list_ex is_soft_delim (butlast t)" by blast
    from b' t(1) have "b' = [t] \<or> b' = []" by auto
    then show ?thesis
    proof
      assume "b' = [t]"
      then show ?thesis using t(2) by (simp add: ceq no_inner_delim_strip)
    next
      assume "b' = []"
      then have "c = []" by (simp add: ceq strip_def)
      with cne show ?thesis by simp
    qed
  qed
qed

lemma pack_bound:
  assumes "\<forall>t\<in>set toks. \<not> list_ex is_soft_delim (butlast t)"
    and "int (length (join_sp buffer)) \<le> current_len"
    and "\<forall>t\<in>set buffer. t \<noteq> []"
    and "buffer = [] \<or> current_len \<le> max_len
         \<or> (\<exists>t. buffer = [t] \<and> \<not> list_ex is_soft_delim (butlast t))"
    and "c \<in> set (pack lower max_len conjs buffer current_len toks)"
  shows "int (length c) \<le> max_len \<or> \<not> list_ex is_soft_delim (butlast c)"
  using assms
proof (induction toks arbitrary: buffer current_len)
  case Nil
  from Nil.prems(5) have c: "c \<in> set (flushed buffer)" by simp
  show ?case
  proof (cases "buffer = []")
    case True
    with c show ?thesis by (auto simp: flushed_def flush_def strip_def)
  next
    case False
    with Nil.prems(4) have "current_len \<le> max_len
         \<or> (\<exists>t. buffer = [t] \<and> \<not> list_ex is_soft_delim (butlast t))" by simp
    then show ?thesis using flushed_bound [OF c _ Nil.prems(2)] by blast
  qed
next
  case (Cons tok toks)
  let ?ts = "strip tok"
  have toks: "\<forall>t\<in>set toks. \<not> list_ex is_soft_delim (butlast t)" using Cons.prems(1) by simp
  have ts: "\<not> list_ex is_soft_delim (butlast ?ts)"
    using Cons.prems(1) by (simp add: no_inner_delim_strip)
  show ?case
  proof (cases "?ts = []")
    case True
    then have "c \<in> set (pack lower max_len conjs buffer current_len toks)"
      using Cons.prems(5) by (simp add: Let_def)
    then show ?thesis using Cons.IH [OF toks Cons.prems(2) Cons.prems(3) Cons.prems(4)] by simp
  next
    case ne: False
    show ?thesis
    proof (cases "smart_can_add max_len ?ts current_len")
      case True
      let ?len = "current_len + (if current_len > 0 then 1 else 0) + int (length ?ts)"
      have c: "c \<in> set (pack lower max_len conjs (buffer @ [?ts]) ?len toks)"
        using Cons.prems(5) ne True by (simp add: Let_def)
      have pos: "buffer \<noteq> [] \<Longrightarrow> 0 < current_len"
      proof -
        assume "buffer \<noteq> []"
        then have "join_sp buffer \<noteq> []" using Cons.prems(3) by (rule join_sp_nonempty)
        then show "0 < current_len" using Cons.prems(2) by (cases "join_sp buffer") auto
      qed
      have l: "int (length (join_sp (buffer @ [?ts]))) \<le> ?len"
        using Cons.prems(2) pos by (auto simp: length_join_sp_snoc)
      have n: "\<forall>t\<in>set (buffer @ [?ts]). t \<noteq> []" using Cons.prems(3) ne by simp
      have i: "buffer @ [?ts] = [] \<or> ?len \<le> max_len
               \<or> (\<exists>t. buffer @ [?ts] = [t] \<and> \<not> list_ex is_soft_delim (butlast t))"
        using True by (simp add: smart_can_add_def)
      show ?thesis using Cons.IH [OF toks l n i c] .
    next
      case False
      let ?b' = "if buffer \<noteq> [] \<and> is_deferred lower conjs (last buffer)
                 then butlast buffer else buffer"
      have "c \<in> set (flushed ?b')
            \<or> c \<in> set (pack lower max_len conjs [?ts] (int (length ?ts)) toks)"
        using Cons.prems(5) ne False by (simp add: Let_def)
      then show ?thesis
      proof
        assume c: "c \<in> set (flushed ?b')"
        show ?thesis
        proof (cases "buffer = []")
          case True
          with c show ?thesis by (auto simp: flushed_def flush_def strip_def)
        next
          case False
          with Cons.prems(4) have inv: "current_len \<le> max_len
             \<or> (\<exists>t. buffer = [t] \<and> \<not> list_ex is_soft_delim (butlast t))" by simp
          have "?b' = buffer \<or> ?b' = butlast buffer" by simp
          from flushed_bound [OF c this Cons.prems(2) inv] show ?thesis .
        qed
      next
        assume c: "c \<in> set (pack lower max_len conjs [?ts] (int (length ?ts)) toks)"
        have l: "int (length (join_sp [?ts])) \<le> int (length ?ts)" by simp
        have n: "\<forall>t\<in>set [?ts]. t \<noteq> []" using ne by simp
        have i: "[?ts] = [] \<or> int (length ?ts) \<le> max_len
                 \<or> (\<exists>t. [?ts] = [t] \<and> \<not> list_ex is_soft_delim (butlast t))"
          using ts by simp
        show ?thesis using Cons.IH [OF toks l n i c] .
      qed
    qed
  qed
qed

lemma pack_ink:
  "c \<in> set (pack lower max_len conjs buffer current_len toks)
     \<Longrightarrow> c \<noteq> [] \<and> list_ex (\<lambda>x. \<not> isspace x) c"
proof (induction toks arbitrary: buffer current_len)
  case Nil
  then show ?case using strip_nonempty_ink by (auto dest!: flushed_cases)
next
  case (Cons tok toks)
  then show ?case
    using strip_nonempty_ink
    by (auto simp: Let_def split: if_splits dest!: flushed_cases)
qed

lemma replace_ink:
  assumes "list_ex (\<lambda>x. \<not> isspace x) new"
  shows "list_ex (\<lambda>x. \<not> isspace x) s \<Longrightarrow> list_ex (\<lambda>x. \<not> isspace x) (replace old new s)"
  using assms by (induction old new s rule: replace.induct) auto

lemma base_sentence_ink:
  "t \<in> set (base_sentence piece) \<Longrightarrow> list_ex (\<lambda>x. \<not> isspace x) t"
proof -
  assume "t \<in> set (base_sentence piece)"
  then have t: "t = replace ELLIPSIS_TOKEN [46, 46, 46] (strip piece)" and ne: "strip piece \<noteq> []"
    by (auto simp: base_sentence_def Let_def split: if_splits)
  have "list_ex (\<lambda>x. \<not> isspace x) [46, 46, 46]" by (simp add: isspace_def)
  then show ?thesis using strip_nonempty_ink [OF ne] by (simp add: t replace_ink)
qed

lemma base_split_ink:
  "t \<in> set (base_split pending s) \<Longrightarrow> list_ex (\<lambda>x. \<not> isspace x) t"
proof (induction pending s rule: base_split.induct)
  case (1 pending)
  then show ?case by (auto dest: base_sentence_ink)
next
  case (2 pending c cs)
  then show ?case by (auto split: option.splits dest: base_sentence_ink)
qed

lemma chunk_sentence_bound:
  assumes "list_ex (\<lambda>x. \<not> isspace x) sent"
    and "c \<in> set (chunk_sentence lower max_len conjs sent)"
  shows "(int (length c) \<le> max_len \<or> \<not> list_ex is_soft_delim (butlast c))
         \<and> c \<noteq> [] \<and> list_ex (\<lambda>x. \<not> isspace x) c"
proof (cases "int (length (strip sent)) \<le> max_len")
  case True
  then have c: "c = strip sent" using assms(2) by (simp add: chunk_sentence_def Let_def)
  have "strip sent \<noteq> []" using assms(1) by (simp add: strip_eq_Nil_iff)
  then show ?thesis using True strip_nonempty_ink [of sent] by (simp add: c)
next
  case False
  then have c: "c \<in> set (pack lower max_len conjs [] 0
                            (merge_parts (re_split_soft [] (strip sent))))"
    using assms(2) by (simp add: chunk_sentence_def Let_def)
  have toks: "\<forall>t\<in>set (merge_parts (re_split_soft [] (strip sent))).
                \<not> list_ex is_soft_delim (butlast t)"
    using tokens_no_inner [of "[]"] by auto
  have "int (length c) \<le> max_len \<or> \<not> list_ex is_soft_delim (butlast c)"
    using pack_bound [OF toks _ _ _ c] by simp
  then show ?thesis using pack_ink [OF c] by simp
qed

text \<open>
  Claim C4, as amended. Every chunk of \<open>split_into_sentences\<close> has at most \<open>max_len\<close>
  characters or has no soft delimiter before its last character (an oversized chunk is one
  token, and a token keeps the delimiter that ends it); and no chunk is empty or made of
  whitespace only. This holds for every \<open>max_len\<close>.
\<close>

theorem split_into_sentences_chunk_bound:
  "\<forall>c\<in>set (split_into_sentences lower paragraph max_len language).
     (int (length c) \<le> max_len \<or> \<not> list_ex is_soft_delim (butlast c))
     \<and> c \<noteq> [] \<and> list_ex (\<lambda>x. \<not> isspace x) c"
proof
  fix c assume "c \<in> set (split_into_sentences lower paragraph max_len language)"
  then obtain sent where sent: "sent \<in> set (base_sentences paragraph)"
    and c: "c \<in> set (chunk_sentence lower max_len (vi_conj language) sent)"
    by (auto simp: split_into_sentences_def split: if_splits)
  from sent have "list_ex (\<lambda>x. \<not> isspace x) sent"
    by (auto simp: base_sentences_def Let_def dest: base_split_ink)
  then show "(int (length c) \<le> max_len \<or> \<not> list_ex is_soft_delim (butlast c))
             \<and> c \<noteq> [] \<and> list_ex (\<lambda>x. \<not> isspace x) c"
    using c by (rule chunk_sentence_bound)
qed

text \<open>
  Evaluation of the segmenter on concrete input unfolds these definitions.
\<close>

lemmas split_eval =
  split_into_sentences_def base_sentences_def strip_def isspace_def ELLIPSIS_TOKEN_def
  match_boundary_def base_sentence_def chunk_sentence_def is_soft_delim_def fullmatch_soft_def
  merged_token_def smart_can_add_def flushed_def flush_def is_deferred_def strip_chars_def
  ascii_lower_def vi_conj_def is_terminal_def is_closer_def Let_def

lemma long_token_eval:
  "split_into_sentences ascii_lower
     [97, 97, 97, 97, 97, 97, 97, 97, 97, 97, 97, 97, 44, 32, 98] 5 [118, 105]
     = [[97, 97, 97, 97, 97, 97, 97, 97, 97, 97, 97, 97, 44], [98]]"
  by (simp add: split_eval)

text \<open>
  The theorem at twelve letters \<open>a\<close>, a comma, a space and \<open>b\<close>, with \<open>max_len = 5\<close>: the first
  chunk has 13 characters and its only delimiter is its last character.
\<close>

theorem split_into_sentences_chunk_bound_witness:
  "split_into_sentences ascii_lower
     [97, 97, 97, 97, 97, 97, 97, 97, 97, 97, 97, 97, 44, 32, 98] 5 [118, 105]
     = [[97, 97, 97, 97, 97, 97, 97, 97, 97, 97, 97, 97, 44], [98]]
   \<and> \<not> list_ex is_soft_delim (butlast [97, 97, 97, 97, 97, 97, 97, 97, 97, 97, 97, 97, 44])
   \<and> list_ex (\<lambda>x. \<not> isspace x) [97, 97, 97, 97, 97, 97, 97, 97, 97, 97, 97, 97, 44]
   \<and> int (length [98 :: nat]) \<le> 5"
  using split_into_sentences_chunk_bound
          [of ascii_lower "[97, 97, 97, 97, 97, 97, 97, 97, 97, 97, 97, 97, 44, 32, 98]" 5
              "[118, 105]"]
        long_token_eval
  by simp

text \<open>
  Claim C4, as stated, at the same input: the first chunk is longer than \<open>max_len\<close> and
  contains a soft delimiter, the comma that ends it.
\<close>

theorem split_into_sentences_oversized_chunk_with_delimiter:
  "\<not> (\<forall>c\<in>set (split_into_sentences ascii_lower
                  [97, 97, 97, 97, 97, 97, 97, 97, 97, 97, 97, 97, 44, 32, 98] 5 [118, 105]).
         int (length c) \<le> 5 \<or> \<not> list_ex is_soft_delim c)"
  by (simp add: long_token_eval) (simp add: is_soft_delim_def)

section \<open>Segmentation: the deferred token\<close>

text \<open>
  Claim C1. The claim says a conjunction or bare delimiter that ends a full buffer starts
  the next chunk and no token is lost. At the sentence "aaaaa, v\`a, bbbbbbbb" (the
  conjunction by its code points 118, 224) with \<open>max_len = 10\<close> and language \<open>vi\<close>, the
  tokens are "aaaaa,", the conjunction with its comma, and "bbbbbbbb"; when the third
  token does not fit, \<open>buffer.pop()\<close> removes the conjunction and the next buffer starts
  with the third token alone: the conjunction is in no chunk.
\<close>

theorem split_into_sentences_drops_deferred_conjunction:
  "merge_parts (re_split_soft []
       [97, 97, 97, 97, 97, 44, 32, 118, 224, 44, 32, 98, 98, 98, 98, 98, 98, 98, 98])
     = [[97, 97, 97, 97, 97, 44], [118, 224, 44], [98, 98, 98, 98, 98, 98, 98, 98]]
   \<and> split_into_sentences ascii_lower
       [97, 97, 97, 97, 97, 44, 32, 118, 224, 44, 32, 98, 98, 98, 98, 98, 98, 98, 98] 10 [118, 105]
     = [[97, 97, 97, 97, 97, 44], [98, 98, 98, 98, 98, 98, 98, 98]]"
  by (simp add: split_eval)

section \<open>The pipeline: the steps and the keys\<close>

lemma str_nat_small: "n < 10 \<Longrightarrow> str_nat n = [48 + n]"
  by (subst str_nat.simps) simp

lemma str_nat_large: "\<not> n < 10 \<Longrightarrow> str_nat n = str_nat (n div 10) @ [48 + n mod 10]"
  by (subst str_nat.simps) simp

lemma str_nat_digits: "c \<in> set (str_nat n) \<Longrightarrow> 48 \<le> c \<and> c \<le> 57"
proof (induction n rule: str_nat.induct)
  case (1 n)
  show ?case
  proof (cases "n < 10")
    case True
    then show ?thesis using 1(2) by (simp add: str_nat_small)
  next
    case False
    then have "c \<in> set (str_nat (n div 10)) \<or> c = 48 + n mod 10"
      using 1(2) by (auto simp: str_nat_large)
    then show ?thesis using 1(1) False by auto
  qed
qed

lemma str_nat_decode:
  "foldl (\<lambda>a c. 10 * a + (c - 48)) 0 (str_nat n) = n"
proof (induction n rule: str_nat.induct)
  case (1 n)
  show ?case
  proof (cases "n < 10")
    case True
    then show ?thesis by (simp add: str_nat_small)
  next
    case False
    then have "foldl (\<lambda>a c. 10 * a + (c - 48)) 0 (str_nat (n div 10)) = n div 10"
      using 1 by simp
    then show ?thesis using False by (simp add: str_nat_large)
  qed
qed

lemma str_nat_inj: "str_nat i = str_nat j \<Longrightarrow> i = j"
  by (metis str_nat_decode)

lemma audio_name_index:
  assumes "audio_name K i s = audio_name K j t"
  shows "i = j"
proof -
  have a: "takeWhile (\<lambda>c. c \<noteq> 95) (str_nat n @ 95 # r) = str_nat n" for n r
  proof -
    have "\<forall>c\<in>set (str_nat n). c \<noteq> 95" using str_nat_digits [of _ n] by fastforce
    then show ?thesis by simp
  qed
  from assms have "takeWhile (\<lambda>c. c \<noteq> 95) (str_nat i @ 95 # py_slice_to s K)
                 = takeWhile (\<lambda>c. c \<noteq> 95) (str_nat j @ 95 # py_slice_to t K)"
    by (simp add: audio_name_def)
  then have "str_nat i = str_nat j" by (simp only: a)
  then show ?thesis by (rule str_nat_inj)
qed

lemma update_fresh: "k \<notin> fst ` set al \<Longrightarrow> AList.update k v al = al @ [(k, v)]"
  by (induction al) auto

lemma audio_loop_collect:
  assumes "\<forall>k\<in>fst ` set acc. \<exists>i<n. \<exists>s. k = audio_name (ext_file_length ext) i s"
  shows "audio_loop ext language (enumerate n ss) acc
           = (case collect (map (\<lambda>(index, sentence). synthesize_chunk ext language index sentence)
                        (filter (\<lambda>(index, sentence). strip sentence \<noteq> []) (enumerate n ss))) of
                Inl e \<Rightarrow> Inl e
              | Inr xs \<Rightarrow> Inr (acc @ xs))"
  using assms
proof (induction ss arbitrary: n acc)
  case Nil
  then show ?case by simp
next
  case (Cons s ss)
  have weaker: "\<forall>k\<in>fst ` set acc. \<exists>i<Suc n. \<exists>s. k = audio_name (ext_file_length ext) i s"
    using Cons.prems by (meson less_Suc_eq)
  show ?case
  proof (cases "strip s = []")
    case True
    then show ?thesis using Cons.IH [OF weaker] by simp
  next
    case False
    let ?text = "normalize_numbers (ext_digit_val ext) (ext_spell_int ext) (ext_spell_float ext)
                   (strip s)"
    let ?inf = "ext_inference ext ?text language (calculate_inference_params (ext_lower ext) ?text)"
    show ?thesis
    proof (cases ?inf)
      case (Inl e)
      then show ?thesis using False
        by (simp add: Let_def normalize_text_def synthesize_chunk_def)
    next
      case (Inr wav)
      let ?trim = "trim_silence (ext_rms ext) wav (ext_sample_rate ext) (1 / 100) 2048 512
                     (case ext_keep_env ext of Some v \<Rightarrow> v | None \<Rightarrow> 2 / 10)"
      show ?thesis
      proof (cases ?trim)
        case (Inl e)
        then show ?thesis using False Inr
          by (simp add: Let_def normalize_text_def synthesize_chunk_def fine_tune_audio_def)
      next
        case trimmed: (Inr tuned)
        let ?key = "audio_name (ext_file_length ext) n s"
        have fresh: "?key \<notin> fst ` set acc"
        proof
          assume "?key \<in> fst ` set acc"
          with Cons.prems obtain i t where "i < n" "?key = audio_name (ext_file_length ext) i t"
            by blast
          then show False using audio_name_index [of "ext_file_length ext" n s i t] by simp
        qed
        have next_inv: "\<forall>k\<in>fst ` set (acc @ [(?key, tuned)]).
                          \<exists>i<Suc n. \<exists>s. k = audio_name (ext_file_length ext) i s"
          using weaker by auto
        have step: "audio_loop ext language (enumerate n (s # ss)) acc
                      = audio_loop ext language (enumerate (Suc n) ss) (acc @ [(?key, tuned)])"
          using False Inr trimmed
          by (simp add: Let_def normalize_text_def fine_tune_audio_def update_fresh [OF fresh])
        have chunk: "synthesize_chunk ext language n s = Inr (?key, tuned)"
          using Inr trimmed by (simp add: synthesize_chunk_def Let_def audio_name_def)
        show ?thesis
          unfolding step Cons.IH [OF next_inv]
          using False chunk by (simp split: sum.splits)
      qed
    qed
  qed
qed

lemma collect_keys:
  "collect (map (\<lambda>(index, sentence). synthesize_chunk ext language index sentence) xs) = Inr ys
     \<Longrightarrow> map fst ys = map (\<lambda>(index, sentence). audio_name (ext_file_length ext) index sentence) xs"
proof (induction xs arbitrary: ys)
  case Nil
  then show ?case by simp
next
  case (Cons x xs)
  obtain i s where x: "x = (i, s)" by (cases x)
  from Cons.prems obtain y ys' where y: "synthesize_chunk ext language i s = Inr y"
    and ys': "collect (map (\<lambda>(index, sentence). synthesize_chunk ext language index sentence) xs)
                = Inr ys'"
    and ys: "ys = y # ys'"
    by (auto simp: x split: sum.splits elim: collect.elims)
  have "fst y = audio_name (ext_file_length ext) i s"
    using y by (auto simp: synthesize_chunk_def Let_def audio_name_def split: sum.splits)
  then show ?case using Cons.IH [OF ys'] by (simp add: ys x)
qed

lemma distinct_audio_names:
  "distinct (map fst xs)
     \<Longrightarrow> distinct (map (\<lambda>(index, sentence). audio_name K index sentence) xs)"
proof (induction xs)
  case Nil
  then show ?case by simp
next
  case (Cons x xs)
  obtain i s where x: "x = (i, s)" by (cases x)
  have "audio_name K i s \<notin> (\<lambda>(index, sentence). audio_name K index sentence) ` set xs"
  proof
    assume "audio_name K i s \<in> (\<lambda>(index, sentence). audio_name K index sentence) ` set xs"
    then obtain j t where "(j, t) \<in> set xs" "audio_name K i s = audio_name K j t" by auto
    then have "(i, t) \<in> set xs" using audio_name_index [of K i s j t] by simp
    then show False using Cons.prems by (force simp: x)
  qed
  then show ?case using Cons by (simp add: x)
qed

text \<open>
  Claim C8. \<open>paragraph_to_audio\<close> segments the paragraph as given, skips the chunks that
  are empty after stripping, takes every other chunk through number normalisation,
  parameter calculation on the normalised text, synthesis and trimming, in the order of
  the chunks, and stores each result under the index of the chunk among the emitted
  chunks, an underscore and the first characters of the chunk before normalisation; an
  exception of the engine or the trimmer ends the run. The keys of a returned map are
  pairwise different.
\<close>

theorem paragraph_to_audio_steps:
  "paragraph_to_audio ext paragraph language
     = collect (map (\<lambda>(index, sentence). synthesize_chunk ext language index sentence)
         (filter (\<lambda>(index, sentence). strip sentence \<noteq> [])
            (enumerate 0 (split_into_sentences (ext_lower ext) paragraph 250 language))))
   \<and> (\<forall>audio_map. paragraph_to_audio ext paragraph language = Inr audio_map
         \<longrightarrow> distinct (map fst audio_map))"
proof -
  let ?xs = "filter (\<lambda>(index, sentence). strip sentence \<noteq> [])
               (enumerate 0 (split_into_sentences (ext_lower ext) paragraph 250 language))"
  have eq: "paragraph_to_audio ext paragraph language
              = collect (map (\<lambda>(index, sentence). synthesize_chunk ext language index sentence) ?xs)"
    using audio_loop_collect [of "[]" 0 ext language]
    by (simp add: paragraph_to_audio_def Let_def split: sum.splits)
  have "distinct (map fst ?xs)" by (simp add: distinct_map_filter)
  then have "distinct (map (\<lambda>(index, sentence). audio_name (ext_file_length ext) index sentence) ?xs)"
    by (rule distinct_audio_names)
  then have "\<forall>audio_map. paragraph_to_audio ext paragraph language = Inr audio_map
               \<longrightarrow> distinct (map fst audio_map)"
    using collect_keys [of ext language ?xs] by (auto simp: eq)
  with eq show ?thesis by blast
qed


text \<open>
  The theorem at the paragraph "a 2. b!": two chunks, the first synthesised from its
  normalised text (the digit read as a word) and stored under a key made from the text
  with the digit.
\<close>

lemma example_split:
  "split_into_sentences ascii_lower [97, 32, 50, 46, 32, 98, 33] 250 [118, 105]
     = [[97, 32, 50, 46], [98, 33]]"
  by (simp add: split_eval)

lemma example_run:
  "paragraph_to_audio example_externals [97, 32, 50, 46, 32, 98, 33] [118, 105]
     = Inr [([48, 95, 97, 32, 50], [97, 32]), ([49, 95, 98, 33], [98, 33])]"
  by (simp add: paragraph_to_audio_def example_externals_def example_split enumerate_eq_zip
        strip_def isspace_def normalize_text_def normalize_numbers_def is_digit_def
        ascii_digit_val_def py_int_def example_num2words.simps vi_digit_word_def
        match_decimal_def fine_tune_audio_def trim_silence_def py_last_def np_where_gt_def
        py_trunc_def py_slice_to_def audio_name_def str_nat_small Let_def)

theorem paragraph_to_audio_steps_witness:
  "paragraph_to_audio example_externals [97, 32, 50, 46, 32, 98, 33] [118, 105]
     = Inr [([48, 95, 97, 32, 50], [97, 32]), ([49, 95, 98, 33], [98, 33])]
   \<and> distinct (map fst [([48, 95, 97, 32, 50], [97, 32 :: nat]), ([49, 95, 98, 33], [98, 33])])"
  using paragraph_to_audio_steps [of example_externals "[97, 32, 50, 46, 32, 98, 33]" "[118, 105]"]
        example_run
  by simp

end
